theory Spec2Isabelle
  imports Main
begin

section \<open>Data model of \<^verbatim>\<open>src/controller/lru_cache.go\<close>\<close>

text \<open>
  The Go program keeps a \<^verbatim>\<open>map[string]*list.Element\<close> (the Lookup Table) and a
  \<^verbatim>\<open>container/list\<close> doubly linked list (the Recency Index) whose elements carry a
  \<^verbatim>\<open>*cacheEntry\<close>. The map and the list share the elements by pointer, and \<^verbatim>\<open>Set\<close>
  writes through such a pointer, so the model has an explicit store:
  \<^item> an address is an index into \<open>heap\<close>, the list of all entries ever allocated; an
    element and the \<^verbatim>\<open>*cacheEntry\<close> in its \<^verbatim>\<open>Value\<close> field are allocated together by
    \<^verbatim>\<open>PushFront(entry)\<close> and \<^verbatim>\<open>Value\<close> is never reassigned, so one address stands for both;
  \<^item> the linked list is the list of its elements' addresses, front first;
  \<^item> the map is a partial function from keys to addresses;
  \<^item> \<^verbatim>\<open>interface{}\<close> is \<open>'v option\<close>, \<open>None\<close> being Go's \<^verbatim>\<open>nil\<close>;
  \<^item> a \<^verbatim>\<open>time.Time\<close> and a \<^verbatim>\<open>time.Duration\<close> are integers (nanoseconds); \<^verbatim>\<open>time.Now()\<close> is
    a parameter of each operation, \<^verbatim>\<open>t.Add(d)\<close> is \<open>t + d\<close> and \<^verbatim>\<open>t.After(u)\<close> is \<open>u < t\<close>;
  \<^item> the mutex is not modelled: every operation is one atomic state transformer.
\<close>

type_synonym addr = nat
type_synonym instant = int
type_synonym duration = int
type_synonym 'v interface = "'v option"

record 'v cacheEntry =
  key :: string
  "value" :: "'v interface"
  expiration :: instant

text \<open>Field \<open>lst\<close> is the Go field \<^verbatim>\<open>list\<close>.\<close>

record 'v LRUCache =
  capacity :: int
  cache :: "string \<rightharpoonup> addr"
  lst :: "addr list"
  heap :: "'v cacheEntry list"

text \<open>
  Dereferencing an address that holds no entry is what a nil pointer dereference is in
  Go: a run-time panic.
\<close>

datatype panic = NilDereference

definition entry_at :: "'v LRUCache \<Rightarrow> addr \<Rightarrow> 'v cacheEntry option" where
  "entry_at c e = (if e < length (heap c) then Some (heap c ! e) else None)"

subsection \<open>The operations of \<^verbatim>\<open>container/list\<close> the program calls\<close>

text \<open>
  \<^verbatim>\<open>MoveToFront(e)\<close> and \<^verbatim>\<open>Remove(e)\<close> leave the list alone when \<^verbatim>\<open>e\<close> is not an element
  of it; \<^verbatim>\<open>Back()\<close> is nil on the empty list. A linked list holds an element at most
  once, so removing the element is removing its address.
\<close>

definition MoveToFront :: "addr \<Rightarrow> addr list \<Rightarrow> addr list" where
  "MoveToFront e l = (if e \<in> set l then e # removeAll e l else l)"

definition Remove :: "addr \<Rightarrow> addr list \<Rightarrow> addr list" where
  "Remove e l = removeAll e l"

definition PushFront :: "addr \<Rightarrow> addr list \<Rightarrow> addr list" where
  "PushFront e l = e # l"

definition Back :: "addr list \<Rightarrow> addr option" where
  "Back l = (if l = [] then None else Some (last l))"

section \<open>The cache operations\<close>

text \<open>The cache as \<^verbatim>\<open>main\<close> constructs it, for a given capacity.\<close>

definition NewLRUCache :: "int \<Rightarrow> 'v LRUCache" where
  "NewLRUCache n = \<lparr>capacity = n, cache = Map.empty, lst = [], heap = []\<rparr>"

text \<open>\<^verbatim>\<open>Get\<close> returns the value (\<open>None\<close> for nil) and the cache after the call.\<close>

definition Get :: "'v LRUCache \<Rightarrow> string \<Rightarrow> instant \<Rightarrow> panic + ('v interface \<times> 'v LRUCache)" where
  "Get c k now =
     (case cache c k of
        None \<Rightarrow> Inr (None, c)
      | Some element \<Rightarrow>
          (case entry_at c element of
             None \<Rightarrow> Inl NilDereference
           | Some entry \<Rightarrow>
               if now < expiration entry
               then Inr (value entry, c\<lparr>lst := MoveToFront element (lst c)\<rparr>)
               else Inr (None, c\<lparr>cache := (cache c)(k := None),
                                  lst := Remove element (lst c)\<rparr>)))"

text \<open>
  \<^verbatim>\<open>Set\<close>, new key, before the capacity check: the entry is allocated at the next free
  address, pushed to the front of the list and stored in the map.
\<close>

definition inserted :: "'v LRUCache \<Rightarrow> string \<Rightarrow> 'v interface \<Rightarrow> instant \<Rightarrow> 'v LRUCache" where
  "inserted c k v t =
     c\<lparr>heap := heap c @ [\<lparr>key = k, value = v, expiration = t\<rparr>],
       lst := PushFront (length (heap c)) (lst c),
       cache := (cache c)(k \<mapsto> length (heap c))\<rparr>"

text \<open>\<^verbatim>\<open>len(c.cache)\<close> is the number of keys of the map.\<close>

definition size_of :: "'v LRUCache \<Rightarrow> nat" where
  "size_of c = card (dom (cache c))"

definition Set :: "'v LRUCache \<Rightarrow> string \<Rightarrow> 'v interface \<Rightarrow> duration \<Rightarrow> instant \<Rightarrow> panic + 'v LRUCache" where
  "Set c k v ttl now =
     (case cache c k of
        Some element \<Rightarrow>
          (case entry_at c element of
             None \<Rightarrow> Inl NilDereference
           | Some entry \<Rightarrow>
               Inr (c\<lparr>lst := MoveToFront element (lst c),
                      heap := (heap c)[element := entry\<lparr>value := v, expiration := now + ttl\<rparr>]\<rparr>))
      | None \<Rightarrow>
          (let c1 = inserted c k v (now + ttl)
           in if capacity c1 < int (size_of c1)
              then (case Back (lst c1) of
                      None \<Rightarrow> Inl NilDereference
                    | Some b \<Rightarrow>
                        (case entry_at c1 b of
                           None \<Rightarrow> Inl NilDereference
                         | Some victim \<Rightarrow>
                             Inr (c1\<lparr>cache := (cache c1)(key victim := None),
                                     lst := Remove b (lst c1)\<rparr>)))
              else Inr c1))"

definition ClearCache :: "'v LRUCache \<Rightarrow> 'v LRUCache" where
  "ClearCache c = c\<lparr>cache := Map.empty, lst := []\<rparr>"

text \<open>
  \<^verbatim>\<open>GetCacheState\<close> ranges over the map. Go leaves the order of a \<^verbatim>\<open>range\<close> over a map
  open and calls \<^verbatim>\<open>time.Now()\<close> once per entry, so the loop takes the schedule of the
  visit: the keys in the order the runtime produces them, each with the instant of its
  check. A key deleted before the loop reaches it is not produced, which is the test
  \<open>cache c k = None\<close> below. The entries are appended by value.
\<close>

fun sweep :: "(string \<times> instant) list \<Rightarrow> 'v LRUCache \<Rightarrow> 'v cacheEntry list
    \<Rightarrow> panic + ('v cacheEntry list \<times> 'v LRUCache)" where
  "sweep [] c nonExpiredEntries = Inr (nonExpiredEntries, c)"
| "sweep ((k, now) # visits) c nonExpiredEntries =
     (case cache c k of
        None \<Rightarrow> sweep visits c nonExpiredEntries
      | Some element \<Rightarrow>
          (case entry_at c element of
             None \<Rightarrow> Inl NilDereference
           | Some entry \<Rightarrow>
               if now < expiration entry
               then sweep visits c (nonExpiredEntries @ [entry])
               else sweep visits
                      (c\<lparr>cache := (cache c)(key entry := None),
                         lst := Remove element (lst c)\<rparr>)
                      nonExpiredEntries))"

definition GetCacheState :: "'v LRUCache \<Rightarrow> (string \<times> instant) list
    \<Rightarrow> panic + ('v cacheEntry list \<times> 'v LRUCache)" where
  "GetCacheState c visits = sweep visits c []"

text \<open>
  A schedule is one the Go runtime can produce for the map of \<open>c\<close> when it visits
  every key of the map once.
\<close>

definition schedule_of :: "'v LRUCache \<Rightarrow> (string \<times> instant) list \<Rightarrow> bool" where
  "schedule_of c visits \<longleftrightarrow> distinct (map fst visits) \<and> set (map fst visits) = dom (cache c)"

text \<open>
  The handler of \<^verbatim>\<open>GET /cache/:key\<close> in \<^verbatim>\<open>main\<close>: status 200 with the value when \<^verbatim>\<open>Get\<close>
  returns a non-nil value, status 404 otherwise.
\<close>

datatype 'v response = StatusOK "'v interface" | StatusNotFound

definition handle_get :: "'v LRUCache \<Rightarrow> string \<Rightarrow> instant \<Rightarrow> panic + ('v response \<times> 'v LRUCache)" where
  "handle_get c k now =
     (case Get c k now of
        Inl p \<Rightarrow> Inl p
      | Inr (v, c') \<Rightarrow> Inr (if v \<noteq> None then StatusOK v else StatusNotFound, c'))"

section \<open>Sequences of operations\<close>

text \<open>
  A call of one of the four operations, with the instants \<^verbatim>\<open>time.Now()\<close> returns during
  the call. \<open>run\<close> performs a sequence of calls, first call first, and stops at a panic.
  The instants and the schedules are arbitrary, so the runs include every run of the Go
  program.
\<close>

datatype 'v op =
    OpGet string instant
  | OpSet string "'v interface" duration instant
  | OpClear
  | OpSnapshot "(string \<times> instant) list"

fun exec :: "'v op \<Rightarrow> 'v LRUCache \<Rightarrow> panic + 'v LRUCache" where
  "exec (OpGet k now) c = (case Get c k now of Inl p \<Rightarrow> Inl p | Inr (v, c') \<Rightarrow> Inr c')"
| "exec (OpSet k v ttl now) c = Set c k v ttl now"
| "exec OpClear c = Inr (ClearCache c)"
| "exec (OpSnapshot visits) c =
     (case GetCacheState c visits of Inl p \<Rightarrow> Inl p | Inr (es, c') \<Rightarrow> Inr c')"

fun run :: "'v op list \<Rightarrow> 'v LRUCache \<Rightarrow> panic + 'v LRUCache" where
  "run [] c = Inr c"
| "run (x # xs) c = (case exec x c of Inl p \<Rightarrow> Inl p | Inr c' \<Rightarrow> run xs c')"

section \<open>Notions of the specification\<close>

text \<open>The keys of the Recency Index, head first: the key field of each element's entry.\<close>

definition keys_of :: "'v LRUCache \<Rightarrow> string list" where
  "keys_of c = map (\<lambda>e. key (heap c ! e)) (lst c)"

text \<open>
  Structural consistency of the Lookup Table and the Recency Index: the list holds each
  element once, every element of the list is allocated and is the element the map holds
  under the key stored in its entry, and the map has no other keys. Lemma
  \<open>consistent_iff\<close> below gives the same invariant from the side of the map.
\<close>

definition consistent :: "'v LRUCache \<Rightarrow> bool" where
  "consistent c \<longleftrightarrow>
     distinct (lst c)
     \<and> (\<forall>e \<in> set (lst c). e < length (heap c) \<and> cache c (key (heap c ! e)) = Some e)
     \<and> dom (cache c) = set (keys_of c)"

text \<open>The entry a key leads to, through the map and the element.\<close>

definition lookup_entry :: "'v LRUCache \<Rightarrow> string \<Rightarrow> 'v cacheEntry option" where
  "lookup_entry c k = (case cache c k of None \<Rightarrow> None | Some e \<Rightarrow> entry_at c e)"

text \<open>
  For one visit of a schedule of \<^verbatim>\<open>GetCacheState\<close>, a key and the instant of its check:
  the entry of the key when its expiration is strictly after the instant (\<open>fresh_at\<close>),
  the entry of the key when its expiration is at or before the instant (\<open>stale_at\<close>).
  For the whole schedule: the fresh entries in the order of the visit, the stale
  entries, and the keys that lead to a stale entry.
\<close>

definition fresh_at :: "'v LRUCache \<Rightarrow> string \<times> instant \<Rightarrow> 'v cacheEntry option" where
  "fresh_at c = (\<lambda>(k, now). case lookup_entry c k of
                                 None \<Rightarrow> None
                               | Some entry \<Rightarrow> if now < expiration entry then Some entry else None)"

definition stale_at :: "'v LRUCache \<Rightarrow> string \<times> instant \<Rightarrow> 'v cacheEntry option" where
  "stale_at c = (\<lambda>(k, now). case lookup_entry c k of
                                 None \<Rightarrow> None
                               | Some entry \<Rightarrow> if now < expiration entry then None else Some entry)"

definition fresh_entries :: "'v LRUCache \<Rightarrow> (string \<times> instant) list \<Rightarrow> 'v cacheEntry list" where
  "fresh_entries c visits = List.map_filter (fresh_at c) visits"

definition stale_entries :: "'v LRUCache \<Rightarrow> (string \<times> instant) list \<Rightarrow> 'v cacheEntry list" where
  "stale_entries c visits = List.map_filter (stale_at c) visits"

definition stale_keys :: "'v LRUCache \<Rightarrow> (string \<times> instant) list \<Rightarrow> string set" where
  "stale_keys c visits = fst ` {kt \<in> set visits. stale_at c kt \<noteq> None}"

text \<open>
  The keys touched by a sequence of calls, last touch first: every \<^verbatim>\<open>Get\<close> and every
  \<^verbatim>\<open>Set\<close> touches its key. The age of a key is the number of touches since its last
  touch (all touches, for a key never touched).
\<close>

fun touched :: "'v op \<Rightarrow> string list" where
  "touched (OpGet k now) = [k]"
| "touched (OpSet k v ttl now) = [k]"
| "touched OpClear = []"
| "touched (OpSnapshot visits) = []"

definition touch_log :: "'v op list \<Rightarrow> string list" where
  "touch_log ops = rev (concat (map touched ops))"

definition age :: "string list \<Rightarrow> string \<Rightarrow> nat" where
  "age log k = length (takeWhile (\<lambda>x. x \<noteq> k) log)"

text \<open>
  The order of recency: a list of keys is in it, for a log of touches, when the ages of
  its keys grow strictly from head to tail and every key has been touched.
\<close>

definition recent :: "string list \<Rightarrow> string list \<Rightarrow> bool" where
  "recent log ks \<longleftrightarrow> sorted_wrt (\<lambda>a b. age log a < age log b) ks \<and> set ks \<subseteq> set log"

text \<open>A call that stores under key \<open>k\<close>: a \<^verbatim>\<open>Set\<close> of \<open>k\<close>.\<close>

fun sets_key :: "string \<Rightarrow> 'v op \<Rightarrow> bool" where
  "sets_key k (OpSet k' v ttl now) = (k' = k)"
| "sets_key k (OpGet k' now) = False"
| "sets_key k OpClear = False"
| "sets_key k (OpSnapshot visits) = False"

text \<open>
  Key \<open>k\<close> is not retrievable from instant \<open>t\<close> on: it leads to no entry, or to an
  entry whose expiration is at or before \<open>t\<close>.
\<close>

definition expired_by:: "'v LRUCache \<Rightarrow> string \<Rightarrow> instant \<Rightarrow> bool" where
  "expired_by c k t = (case lookup_entry c k of None \<Rightarrow> True | Some entry \<Rightarrow> expiration entry \<le> t)"

section \<open>An example\<close>

text \<open>
  A cache of capacity 2 after \<^verbatim>\<open>Set("a", 1, 60)\<close> at instant 0, \<^verbatim>\<open>Set("b", 2, 60)\<close> at
  instant 1 and \<^verbatim>\<open>Get("a")\<close> at instant 2.
\<close>

definition example_ops :: "int op list" where
  "example_ops = [OpSet ''a'' (Some 1) 60 0, OpSet ''b'' (Some 2) 60 1, OpGet ''a'' 2]"

definition example_cache :: "int LRUCache" where
  "example_cache =
     \<lparr>capacity = 2, cache = [''a'' \<mapsto> 0, ''b'' \<mapsto> 1], lst = [0, 1],
      heap = [\<lparr>key = ''a'', value = Some 1, expiration = 60\<rparr>,
              \<lparr>key = ''b'', value = Some 2, expiration = 61\<rparr>]\<rparr>"

section \<open>Structural consistency\<close>


lemma consistent_lookup:
  assumes "consistent c" "cache c k = Some e"
  shows "e \<in> set (lst c) \<and> e < length (heap c) \<and> key (heap c ! e) = k"
proof -
  from assms have "k \<in> set (keys_of c)" by (auto simp: consistent_def)
  then obtain e' where e': "e' \<in> set (lst c)" "k = key (heap c ! e')"
    by (auto simp: keys_of_def)
  with assms(1) have "cache c k = Some e'" by (simp add: consistent_def)
  with assms(2) have "e' = e" by simp
  with e' assms(1) show ?thesis by (auto simp: consistent_def)
qed

lemma consistent_entry_at:
  "consistent c \<Longrightarrow> cache c k = Some e \<Longrightarrow> entry_at c e = Some (heap c ! e)"
  by (simp add: entry_at_def consistent_lookup)

lemma consistent_key_inj:
  "consistent c \<Longrightarrow> e \<in> set (lst c) \<Longrightarrow> e' \<in> set (lst c) \<Longrightarrow>
   key (heap c ! e) = key (heap c ! e') \<Longrightarrow> e = e'"
  by (metis consistent_def option.inject)

lemma consistent_remove:
  assumes "consistent c" "cache c k = Some e"
  shows "consistent (c\<lparr>cache := (cache c)(k := None), lst := removeAll e (lst c)\<rparr>)"
proof -
  note L = consistent_lookup[OF assms]
  have inj: "\<And>e'. e' \<in> set (lst c) \<Longrightarrow> key (heap c ! e') = k \<Longrightarrow> e' = e"
    using consistent_key_inj[OF assms(1)] L by blast
  show ?thesis
    using assms L inj unfolding consistent_def keys_of_def
    by (auto simp: distinct_removeAll image_iff dom_def)
qed

lemma consistent_move:
  assumes "consistent c" "e \<in> set (lst c)"
  shows "consistent (c\<lparr>lst := e # removeAll e (lst c)\<rparr>)"
  using assms unfolding consistent_def keys_of_def
  by (auto simp: distinct_removeAll)

lemma consistent_update:
  assumes "consistent c" "e \<in> set (lst c)" "key ent = key (heap c ! e)"
  shows "consistent (c\<lparr>heap := (heap c)[e := ent]\<rparr>)"
  using assms unfolding consistent_def keys_of_def
  by (auto simp: nth_list_update image_iff)

lemma consistent_insert:
  assumes "consistent c" "cache c k = None" "key ent = k"
  shows "consistent (c\<lparr>heap := heap c @ [ent], lst := length (heap c) # lst c,
                       cache := (cache c)(k \<mapsto> length (heap c))\<rparr>)"
proof -
  have fresh: "length (heap c) \<notin> set (lst c)"
    using assms(1) by (auto simp: consistent_def)
  have nk: "\<And>e. e \<in> set (lst c) \<Longrightarrow> key (heap c ! e) \<noteq> k"
    using assms(1,2) by (auto simp: consistent_def)
  show ?thesis
    using assms fresh nk unfolding consistent_def keys_of_def
    by (auto simp: nth_append image_iff)
qed


lemma consistent_iff:
  "consistent c \<longleftrightarrow>
     distinct (keys_of c)
     \<and> (\<forall>e \<in> set (lst c). e < length (heap c))
     \<and> dom (cache c) = set (keys_of c)
     \<and> (\<forall>k e. cache c k = Some e \<longrightarrow> e \<in> set (lst c) \<and> key (heap c ! e) = k)"
proof
  assume c: "consistent c"
  have "inj_on (\<lambda>e. key (heap c ! e)) (set (lst c))"
    using consistent_key_inj[OF c] by (auto simp: inj_on_def)
  with c have "distinct (keys_of c)"
    by (simp add: keys_of_def distinct_map consistent_def)
  with c consistent_lookup[OF c] show
    "distinct (keys_of c) \<and> (\<forall>e \<in> set (lst c). e < length (heap c))
     \<and> dom (cache c) = set (keys_of c)
     \<and> (\<forall>k e. cache c k = Some e \<longrightarrow> e \<in> set (lst c) \<and> key (heap c ! e) = k)"
    by (auto simp: consistent_def)
next
  assume r: "distinct (keys_of c) \<and> (\<forall>e \<in> set (lst c). e < length (heap c))
     \<and> dom (cache c) = set (keys_of c)
     \<and> (\<forall>k e. cache c k = Some e \<longrightarrow> e \<in> set (lst c) \<and> key (heap c ! e) = k)"
  then have d: "distinct (lst c)" and inj: "inj_on (\<lambda>e. key (heap c ! e)) (set (lst c))"
    by (auto simp: keys_of_def distinct_map)
  have "cache c (key (heap c ! e)) = Some e" if e: "e \<in> set (lst c)" for e
  proof -
    from e r have "key (heap c ! e) \<in> dom (cache c)" by (auto simp: keys_of_def)
    then obtain e' where e': "cache c (key (heap c ! e)) = Some e'" by auto
    with r have "e' \<in> set (lst c)" "key (heap c ! e') = key (heap c ! e)" by auto
    with inj e have "e' = e" by (auto simp: inj_on_def)
    with e' show ?thesis by simp
  qed
  with r d show "consistent c" by (auto simp: consistent_def)
qed

lemma NewLRUCache_consistent: "consistent (NewLRUCache n)"
  by (simp add: consistent_def NewLRUCache_def keys_of_def)

lemma Get_absent: "cache c k = None \<Longrightarrow> Get c k now = Inr (None, c)"
  by (simp add: Get_def)

lemma Get_expired:
  "consistent c \<Longrightarrow> cache c k = Some e \<Longrightarrow> expiration (heap c ! e) \<le> now \<Longrightarrow>
   Get c k now = Inr (None, c\<lparr>cache := (cache c)(k := None), lst := removeAll e (lst c)\<rparr>)"
  by (simp add: Get_def consistent_entry_at Remove_def)

lemma Get_valid:
  "consistent c \<Longrightarrow> cache c k = Some e \<Longrightarrow> now < expiration (heap c ! e) \<Longrightarrow>
   Get c k now = Inr (value (heap c ! e), c\<lparr>lst := e # removeAll e (lst c)\<rparr>)"
  by (simp add: Get_def consistent_entry_at MoveToFront_def consistent_lookup)

lemma Get_consistent:
  assumes "consistent c"
  shows "\<exists>v c'. Get c k now = Inr (v, c') \<and> consistent c'"
proof (cases "cache c k")
  case None
  with assms show ?thesis by (simp add: Get_absent)
next
  case (Some e)
  show ?thesis
  proof (cases "now < expiration (heap c ! e)")
    case True
    with assms Some show ?thesis
      by (simp add: Get_valid consistent_move consistent_lookup)
  next
    case False
    with assms Some show ?thesis
      by (simp add: Get_expired consistent_remove)
  qed
qed

lemma Set_existing:
  "consistent c \<Longrightarrow> cache c k = Some e \<Longrightarrow>
   Set c k v ttl now =
     Inr (c\<lparr>lst := e # removeAll e (lst c),
            heap := (heap c)[e := (heap c ! e)\<lparr>value := v, expiration := now + ttl\<rparr>]\<rparr>)"
  by (simp add: Set_def consistent_entry_at MoveToFront_def consistent_lookup)


lemma Set_existing_consistent:
  assumes "consistent c" "cache c k = Some e"
  shows "\<exists>c'. Set c k v ttl now = Inr c' \<and> consistent c' \<and> dom (cache c') = dom (cache c)
              \<and> length (lst c') = length (lst c) \<and> capacity c' = capacity c"
proof -
  note L = consistent_lookup[OF assms]
  let ?c1 = "c\<lparr>lst := e # removeAll e (lst c)\<rparr>"
  have c1: "consistent ?c1" using assms L by (simp add: consistent_move)
  have "consistent (?c1\<lparr>heap := (heap ?c1)[e := (heap c ! e)\<lparr>value := v, expiration := now + ttl\<rparr>]\<rparr>)"
    by (rule consistent_update[OF c1]) simp_all
  moreover have "length (e # removeAll e (lst c)) = length (lst c)"
    using assms(1) L by (simp add: consistent_def distinct_remove1_removeAll[symmetric] length_remove1)
       (metis L One_nat_def Suc_pred length_pos_if_in_set)
  ultimately show ?thesis using assms by (simp add: Set_existing)
qed

lemma consistent_size: "consistent c \<Longrightarrow> size_of c = length (lst c)"
proof -
  assume c: "consistent c"
  then have "distinct (keys_of c)" by (simp add: consistent_iff)
  then have "card (set (keys_of c)) = length (keys_of c)" by (rule distinct_card)
  with c show ?thesis by (simp add: size_of_def consistent_def keys_of_def)
qed

lemma card_dom_insert:
  "finite (dom m) \<Longrightarrow> m k = None \<Longrightarrow> card (dom (m(k \<mapsto> e))) = Suc (card (dom m))"
  by (simp add: domIff)

lemma size_of_inserted:
  "finite (dom (cache c)) \<Longrightarrow> cache c k = None \<Longrightarrow> size_of (inserted c k v t) = Suc (size_of c)"
  by (simp add: size_of_def inserted_def card_dom_insert del: dom_fun_upd)

lemma Set_new_no_evict:
  "cache c k = None \<Longrightarrow> int (size_of c) < capacity c \<Longrightarrow> finite (dom (cache c)) \<Longrightarrow>
   Set c k v ttl now = Inr (inserted c k v (now + ttl))"
  by (simp add: Set_def Let_def size_of_inserted) (simp add: inserted_def)


lemma consistent_finite: "consistent c \<Longrightarrow> finite (dom (cache c))"
  by (simp add: consistent_def)

lemma inserted_consistent:
  "consistent c \<Longrightarrow> cache c k = None \<Longrightarrow> consistent (inserted c k v t)"
  unfolding inserted_def PushFront_def by (rule consistent_insert) simp_all

lemma Set_new_evict:
  assumes "consistent c" "cache c k = None" "capacity c \<le> int (size_of c)"
  shows "Set c k v ttl now =
     Inr ((inserted c k v (now + ttl))
            \<lparr>cache := (cache (inserted c k v (now + ttl)))
                        (key (heap (inserted c k v (now + ttl)) ! last (lst (inserted c k v (now + ttl)))) := None),
             lst := removeAll (last (lst (inserted c k v (now + ttl)))) (lst (inserted c k v (now + ttl)))\<rparr>)"
proof -
  let ?c1 = "inserted c k v (now + ttl)"
  have c1: "consistent ?c1" using assms by (simp add: inserted_consistent)
  have "last (lst ?c1) \<in> set (lst ?c1)" by (simp add: inserted_def PushFront_def)
  with c1 have e: "entry_at ?c1 (last (lst ?c1)) = Some (heap ?c1 ! last (lst ?c1))"
    by (simp add: entry_at_def consistent_def)
  have b: "Back (lst ?c1) = Some (last (lst ?c1))" by (simp add: Back_def inserted_def PushFront_def)
  have "capacity ?c1 < int (size_of ?c1)"
    using assms consistent_finite[OF assms(1)] by (simp add: size_of_inserted) (simp add: inserted_def)
  then show ?thesis
    using e b by (simp add: Set_def Let_def Remove_def assms(2))
qed

lemma Set_consistent:
  assumes "consistent c"
  shows "\<exists>c'. Set c k v ttl now = Inr c' \<and> consistent c'"
proof (cases "cache c k")
  case (Some e)
  with assms show ?thesis using Set_existing_consistent by blast
next
  case None
  let ?c1 = "inserted c k v (now + ttl)"
  have c1: "consistent ?c1" using assms None by (simp add: inserted_consistent)
  show ?thesis
  proof (cases "int (size_of c) < capacity c")
    case True
    with None assms c1 show ?thesis
      by (simp add: Set_new_no_evict consistent_finite)
  next
    case False
    let ?b = "last (lst ?c1)"
    have "?b \<in> set (lst ?c1)" by (simp add: inserted_def PushFront_def)
    with c1 have "cache ?c1 (key (heap ?c1 ! ?b)) = Some ?b" by (simp add: consistent_def)
    from consistent_remove[OF c1 this] False None assms show ?thesis
      by (simp add: Set_new_evict)
  qed
qed

lemma ClearCache_consistent: "consistent (ClearCache c)"
  by (simp add: consistent_def ClearCache_def keys_of_def)

lemma sweep_consistent:
  "consistent c \<Longrightarrow> \<exists>es c'. sweep visits c acc = Inr (es, c') \<and> consistent c'"
proof (induction visits arbitrary: c acc)
  case Nil
  then show ?case by simp
next
  case (Cons kt visits)
  obtain k t where kt: "kt = (k, t)" by (cases kt)
  show ?case
  proof (cases "cache c k")
    case None
    with Cons kt show ?thesis by simp
  next
    case (Some e)
    note L = consistent_lookup[OF Cons.prems Some]
    have E: "entry_at c e = Some (heap c ! e)" using Cons.prems Some by (rule consistent_entry_at)
    show ?thesis
    proof (cases "t < expiration (heap c ! e)")
      case True
      with Cons kt Some E show ?thesis by simp
    next
      case False
      have "consistent (c\<lparr>cache := (cache c)(k := None), lst := removeAll e (lst c)\<rparr>)"
        using Cons.prems Some by (rule consistent_remove)
      from Cons.IH[OF this] False kt Some E L show ?thesis by (simp add: Remove_def)
    qed
  qed
qed


lemma example_cache_consistent: "consistent example_cache"
  by (auto simp: consistent_def example_cache_def keys_of_def)

lemma example_run: "run example_ops (NewLRUCache 2) = Inr example_cache"
  by (simp add: example_ops_def example_cache_def NewLRUCache_def Set_def Get_def Let_def
      inserted_def PushFront_def size_of_def entry_at_def MoveToFront_def fun_upd_twist)

section \<open>Get\<close>

text \<open>
  C1. In a consistent cache, \<^verbatim>\<open>Get(k)\<close> at instant \<open>now\<close>
  \<^item> returns nil and leaves the cache as it is when \<open>k\<close> is not in the Lookup Table;
  \<^item> when \<open>k\<close> leads to element \<open>e\<close> and the expiration of its entry is at or before
    \<open>now\<close>, returns nil, deletes \<open>k\<close> from the Lookup Table and \<open>e\<close> from the Recency
    Index, and changes nothing else;
  \<^item> when the expiration is after \<open>now\<close>, returns the value of the entry and moves \<open>e\<close>
    to the head of the Recency Index; the Lookup Table and the store, so the value and
    the expiration of every entry, are as before.
\<close>

theorem Get_lookup:
  assumes "consistent c"
  shows "(cache c k = None \<longrightarrow> Get c k now = Inr (None, c))
       \<and> (\<forall>e. cache c k = Some e \<and> expiration (heap c ! e) \<le> now \<longrightarrow>
            (\<exists>c'. Get c k now = Inr (None, c')
               \<and> cache c' = (cache c)(k := None) \<and> lst c' = removeAll e (lst c)
               \<and> k \<notin> dom (cache c') \<and> e \<notin> set (lst c') \<and> k \<notin> set (keys_of c')
               \<and> heap c' = heap c \<and> capacity c' = capacity c))
       \<and> (\<forall>e. cache c k = Some e \<and> now < expiration (heap c ! e) \<longrightarrow>
            (\<exists>c'. Get c k now = Inr (value (heap c ! e), c')
               \<and> lst c' = e # removeAll e (lst c) \<and> e \<in> set (lst c)
               \<and> cache c' = cache c \<and> heap c' = heap c \<and> capacity c' = capacity c))"
proof (intro conjI allI impI)
  assume "cache c k = None"
  then show "Get c k now = Inr (None, c)" by (rule Get_absent)
next
  fix e assume a: "cache c k = Some e \<and> expiration (heap c ! e) \<le> now"
  let ?c' = "c\<lparr>cache := (cache c)(k := None), lst := removeAll e (lst c)\<rparr>"
  have "consistent ?c'" using assms a by (simp add: consistent_remove)
  then have "dom (cache ?c') = set (keys_of ?c')" by (simp add: consistent_def)
  then have "k \<notin> set (keys_of ?c')" by auto
  with assms a show "\<exists>c'. Get c k now = Inr (None, c')
               \<and> cache c' = (cache c)(k := None) \<and> lst c' = removeAll e (lst c)
               \<and> k \<notin> dom (cache c') \<and> e \<notin> set (lst c') \<and> k \<notin> set (keys_of c')
               \<and> heap c' = heap c \<and> capacity c' = capacity c"
    by (simp add: Get_expired)
next
  fix e assume a: "cache c k = Some e \<and> now < expiration (heap c ! e)"
  then have "e \<in> set (lst c)" using consistent_lookup[OF assms] by blast
  with a assms show "\<exists>c'. Get c k now = Inr (value (heap c ! e), c')
               \<and> lst c' = e # removeAll e (lst c) \<and> e \<in> set (lst c)
               \<and> cache c' = cache c \<and> heap c' = heap c \<and> capacity c' = capacity c"
    by (simp add: Get_valid)
qed

theorem Get_lookup_witness:
  "consistent example_cache
   \<and> cache example_cache ''z'' = None
   \<and> Get example_cache ''z'' 5 = Inr (None, example_cache)
   \<and> cache example_cache ''b'' = Some 1 \<and> expiration (heap example_cache ! 1) \<le> 61
   \<and> (\<exists>c'. Get example_cache ''b'' 61 = Inr (None, c') \<and> cache c' = [''a'' \<mapsto> 0] \<and> lst c' = [0])
   \<and> 5 < expiration (heap example_cache ! 1)
   \<and> (\<exists>c'. Get example_cache ''b'' 5 = Inr (Some 2, c') \<and> lst c' = [1, 0]
          \<and> cache c' = cache example_cache \<and> heap c' = heap example_cache)"
proof -
  have 1: "cache example_cache ''z'' = None" by (simp add: example_cache_def)
  have 2: "cache example_cache ''b'' = Some 1 \<and> expiration (heap example_cache ! 1) \<le> 61"
    by (simp add: example_cache_def)
  have 3: "cache example_cache ''b'' = Some 1 \<and> 5 < expiration (heap example_cache ! 1)"
    by (simp add: example_cache_def)
  from Get_lookup[OF example_cache_consistent, of "''z''" 5] 1
  have a: "Get example_cache ''z'' 5 = Inr (None, example_cache)" by blast
  from Get_lookup[OF example_cache_consistent, of "''b''" 61] 2
  have "\<exists>c'. Get example_cache ''b'' 61 = Inr (None, c')
          \<and> cache c' = (cache example_cache)(''b'' := None) \<and> lst c' = removeAll 1 (lst example_cache)"
    by blast
  then have b: "\<exists>c'. Get example_cache ''b'' 61 = Inr (None, c') \<and> cache c' = [''a'' \<mapsto> 0] \<and> lst c' = [0]"
    by (simp add: example_cache_def)
  from Get_lookup[OF example_cache_consistent, of "''b''" 5] 3
  have "\<exists>c'. Get example_cache ''b'' 5 = Inr (value (heap example_cache ! 1), c')
          \<and> lst c' = 1 # removeAll 1 (lst example_cache)
          \<and> cache c' = cache example_cache \<and> heap c' = heap example_cache"
    by blast
  then have c: "\<exists>c'. Get example_cache ''b'' 5 = Inr (Some 2, c') \<and> lst c' = [1, 0]
          \<and> cache c' = cache example_cache \<and> heap c' = heap example_cache"
    by (simp add: example_cache_def)
  from a b c 1 2 3 example_cache_consistent show ?thesis by blast
qed

section \<open>Clear\<close>

text \<open>
  C8. \<^verbatim>\<open>ClearCache\<close> has no failing path (it returns a cache, not a panic). After it the
  Lookup Table and the Recency Index are empty, the size is 0, the capacity is the one
  before, and \<^verbatim>\<open>Get\<close> of any key, so of every key that was present, returns nil and
  leaves the cleared cache as it is.
\<close>

theorem ClearCache_empties:
  "cache (ClearCache c) = Map.empty
   \<and> lst (ClearCache c) = []
   \<and> card (dom (cache (ClearCache c))) = 0
   \<and> length (lst (ClearCache c)) = 0
   \<and> capacity (ClearCache c) = capacity c
   \<and> Get (ClearCache c) k now = Inr (None, ClearCache c)"
  by (simp add: ClearCache_def Get_def)

section \<open>The operations preserve structural consistency\<close>

text \<open>
  C4. From a consistent cache, \<^verbatim>\<open>Get\<close>, \<^verbatim>\<open>Set\<close>, \<^verbatim>\<open>ClearCache\<close> and \<^verbatim>\<open>GetCacheState\<close>
  (for any schedule of its loop) return without a panic and leave a consistent cache:
  the Lookup Table and the Recency Index hold the same keys, the slot of each key is the
  element of the list that carries it, and the key field of that element's entry is the
  key of the slot (\<open>consistent_iff\<close>).
\<close>

theorem operations_preserve_consistent:
  assumes "consistent c"
  shows "(\<exists>r c'. Get c k now = Inr (r, c') \<and> consistent c')
       \<and> (\<exists>c'. Set c k v ttl now = Inr c' \<and> consistent c')
       \<and> consistent (ClearCache c)
       \<and> (\<exists>es c'. GetCacheState c visits = Inr (es, c') \<and> consistent c')"
  using assms Get_consistent[of c k now] Set_consistent[of c k v ttl now]
    ClearCache_consistent[of c] sweep_consistent[of c visits "[]"]
  by (simp add: GetCacheState_def)

theorem operations_preserve_consistent_witness:
  "consistent example_cache
   \<and> (\<exists>r c'. Get example_cache ''a'' 60 = Inr (r, c') \<and> consistent c')
   \<and> (\<exists>c'. Set example_cache ''c'' (Some 3) 60 3 = Inr c' \<and> consistent c')
   \<and> consistent (ClearCache example_cache)
   \<and> (\<exists>es c'. GetCacheState example_cache [(''b'', 60), (''a'', 60)] = Inr (es, c') \<and> consistent c')"
  using operations_preserve_consistent[OF example_cache_consistent] example_cache_consistent
  by simp

section \<open>Set of a key that is present\<close>

text \<open>
  C5. In a consistent cache where \<open>k\<close> leads to element \<open>e\<close>, whatever the expiration of
  its entry, \<^verbatim>\<open>Set(k, v, ttl)\<close> at instant \<open>now\<close> writes \<open>v\<close> and \<open>now + ttl\<close> into the
  entry at \<open>e\<close> (the same address, the key field as before), moves \<open>e\<close> to the head of
  the Recency Index, and leaves the Lookup Table, the elements of the list and so the
  number of entries as they were: nothing is evicted.
\<close>

theorem Set_existing_updates:
  assumes "consistent c" "cache c k = Some e"
  shows "\<exists>c'. Set c k v ttl now = Inr c'
           \<and> cache c' = cache c
           \<and> heap c' = (heap c)[e := (heap c ! e)\<lparr>value := v, expiration := now + ttl\<rparr>]
           \<and> key (heap c' ! e) = k \<and> value (heap c' ! e) = v
           \<and> expiration (heap c' ! e) = now + ttl
           \<and> lst c' = e # removeAll e (lst c)
           \<and> set (lst c') = set (lst c)
           \<and> length (lst c') = length (lst c)
           \<and> size_of c' = size_of c
           \<and> capacity c' = capacity c"
proof -
  note L = consistent_lookup[OF assms]
  from Set_existing_consistent[OF assms, of v ttl now]
  have len: "length (e # removeAll e (lst c)) = length (lst c)"
    by (simp add: Set_existing[OF assms])
  have "set (e # removeAll e (lst c)) = set (lst c)" using L by auto
  with len L show ?thesis
    by (simp add: Set_existing[OF assms] size_of_def)
qed

theorem Set_existing_updates_witness:
  "consistent example_cache \<and> cache example_cache ''b'' = Some 1
   \<and> (\<exists>c'. Set example_cache ''b'' (Some 7) 60 100 = Inr c'
          \<and> cache c' = cache example_cache
          \<and> value (heap c' ! 1) = Some 7 \<and> expiration (heap c' ! 1) = 160
          \<and> lst c' = [1, 0] \<and> size_of c' = size_of example_cache)"
proof -
  have 1: "cache example_cache ''b'' = Some 1" by (simp add: example_cache_def)
  from Set_existing_updates[OF example_cache_consistent 1, of "Some 7" 60 100]
  have "\<exists>c'. Set example_cache ''b'' (Some 7) 60 100 = Inr c'
          \<and> cache c' = cache example_cache
          \<and> value (heap c' ! 1) = Some 7 \<and> expiration (heap c' ! 1) = 100 + 60
          \<and> lst c' = 1 # removeAll 1 (lst example_cache) \<and> size_of c' = size_of example_cache"
    by blast
  then have "\<exists>c'. Set example_cache ''b'' (Some 7) 60 100 = Inr c'
          \<and> cache c' = cache example_cache
          \<and> value (heap c' ! 1) = Some 7 \<and> expiration (heap c' ! 1) = 160
          \<and> lst c' = [1, 0] \<and> size_of c' = size_of example_cache"
    by (simp add: example_cache_def)
  with 1 example_cache_consistent show ?thesis by blast
qed

section \<open>The capacity bound\<close>

lemma size_of_delete: "finite (dom (cache c)) \<Longrightarrow>
  size_of (c\<lparr>cache := (cache c)(k := None), lst := l\<rparr>) \<le> size_of c"
  by (simp add: size_of_def card_Diff1_le)

lemma size_of_delete_present: "finite (dom (cache c)) \<Longrightarrow> cache c k = Some e \<Longrightarrow>
  Suc (size_of (c\<lparr>cache := (cache c)(k := None), lst := l\<rparr>)) = size_of c"
proof -
  assume fin: "finite (dom (cache c))" and k: "cache c k = Some e"
  then have "k \<in> dom (cache c)" by auto
  with fin have "card (dom (cache c)) = Suc (card (dom (cache c) - {k}))"
    by (rule card.remove)
  then show ?thesis by (simp add: size_of_def)
qed

lemma Get_bounded:
  assumes "consistent c"
  shows "\<exists>r c'. Get c k now = Inr (r, c') \<and> capacity c' = capacity c \<and> size_of c' \<le> size_of c"
proof (cases "cache c k")
  case None
  then show ?thesis by (simp add: Get_absent)
next
  case (Some e)
  show ?thesis
  proof (cases "now < expiration (heap c ! e)")
    case True
    with assms Some show ?thesis by (simp add: Get_valid size_of_def)
  next
    case False
    with assms Some show ?thesis
      by (simp add: Get_expired size_of_delete consistent_finite)
  qed
qed

lemma Set_bounded:
  assumes "consistent c" "int (size_of c) \<le> capacity c"
  shows "\<exists>c'. Set c k v ttl now = Inr c' \<and> capacity c' = capacity c
             \<and> int (size_of c') \<le> capacity c'"
proof (cases "cache c k")
  case (Some e)
  from Set_existing_consistent[OF assms(1) Some, of v ttl now] assms(2)
  show ?thesis by (auto simp: size_of_def)
next
  case None
  let ?c1 = "inserted c k v (now + ttl)"
  note fin = consistent_finite[OF assms(1)]
  have s1: "size_of ?c1 = Suc (size_of c)" using fin None by (rule size_of_inserted)
  have cap1: "capacity ?c1 = capacity c" by (simp add: inserted_def)
  show ?thesis
  proof (cases "int (size_of c) < capacity c")
    case True
    with None fin s1 cap1 show ?thesis by (simp add: Set_new_no_evict)
  next
    case False
    have c1: "consistent ?c1" using assms(1) None by (rule inserted_consistent)
    let ?b = "last (lst ?c1)"
    have "?b \<in> set (lst ?c1)" by (simp add: inserted_def PushFront_def)
    with c1 have "cache ?c1 (key (heap ?c1 ! ?b)) = Some ?b" by (simp add: consistent_def)
    from size_of_delete_present[OF consistent_finite[OF c1] this] s1
    have "size_of (?c1\<lparr>cache := (cache ?c1)(key (heap ?c1 ! ?b) := None),
                        lst := removeAll ?b (lst ?c1)\<rparr>) = size_of c"
      by simp
    with False assms None cap1 show ?thesis by (simp add: Set_new_evict)
  qed
qed

lemma sweep_bounded:
  "consistent c \<Longrightarrow>
   \<exists>es c'. sweep visits c acc = Inr (es, c') \<and> capacity c' = capacity c \<and> size_of c' \<le> size_of c"
proof (induction visits arbitrary: c acc)
  case Nil
  then show ?case by simp
next
  case (Cons kt visits)
  obtain k t where kt: "kt = (k, t)" by (cases kt)
  show ?case
  proof (cases "cache c k")
    case None
    with Cons kt show ?thesis by simp
  next
    case (Some e)
    note L = consistent_lookup[OF Cons.prems Some]
    have E: "entry_at c e = Some (heap c ! e)" using Cons.prems Some by (rule consistent_entry_at)
    show ?thesis
    proof (cases "t < expiration (heap c ! e)")
      case True
      with Cons kt Some E show ?thesis by simp
    next
      case False
      let ?c1 = "c\<lparr>cache := (cache c)(k := None), lst := removeAll e (lst c)\<rparr>"
      have c1: "consistent ?c1" using Cons.prems Some by (rule consistent_remove)
      have "size_of ?c1 \<le> size_of c" using Cons.prems by (simp add: size_of_delete consistent_finite)
      with Cons.IH[OF c1, of acc] False kt Some E L show ?thesis
        by (auto simp: Remove_def)
    qed
  qed
qed

lemma exec_invariant:
  assumes "consistent c" "int (size_of c) \<le> capacity c"
  shows "\<exists>c'. exec x c = Inr c' \<and> consistent c' \<and> capacity c' = capacity c
             \<and> int (size_of c') \<le> capacity c'"
proof (cases x)
  case (OpGet k now)
  from Get_consistent[OF assms(1), of k now] Get_bounded[OF assms(1), of k now] assms(2)
  show ?thesis using OpGet by auto
next
  case (OpSet k v ttl now)
  from Set_consistent[OF assms(1), of k v ttl now] Set_bounded[OF assms, of k v ttl now]
  show ?thesis using OpSet by auto
next
  case OpClear
  from assms(2) have "0 \<le> capacity c" by simp
  then show ?thesis using OpClear
    by (simp add: ClearCache_consistent) (simp add: ClearCache_def size_of_def)
next
  case (OpSnapshot visits)
  from sweep_consistent[OF assms(1), of visits "[]"] sweep_bounded[OF assms(1), of visits "[]"] assms(2)
  show ?thesis using OpSnapshot by (auto simp: GetCacheState_def)
qed

lemma run_invariant:
  "consistent c \<Longrightarrow> int (size_of c) \<le> capacity c \<Longrightarrow>
   \<exists>c'. run xs c = Inr c' \<and> consistent c' \<and> capacity c' = capacity c
        \<and> int (size_of c') \<le> capacity c'"
proof (induction xs arbitrary: c)
  case Nil
  then show ?case by simp
next
  case (Cons x xs)
  from exec_invariant[OF Cons.prems, of x] obtain c1 where
    c1: "exec x c = Inr c1" "consistent c1" "capacity c1 = capacity c" "int (size_of c1) \<le> capacity c1"
    by blast
  from Cons.IH[OF c1(2) c1(4)] c1(1) c1(3) show ?case by auto
qed

lemma NewLRUCache_size: "size_of (NewLRUCache n) = 0" "capacity (NewLRUCache n) = n"
  by (simp_all add: NewLRUCache_def size_of_def)

text \<open>
  C3. For a cache constructed with a positive capacity \<open>n\<close>, every sequence of \<^verbatim>\<open>Get\<close>,
  \<^verbatim>\<open>Set\<close>, \<^verbatim>\<open>ClearCache\<close> and \<^verbatim>\<open>GetCacheState\<close> calls runs without a panic to a cache
  with at most \<open>n\<close> keys in the Lookup Table and at most \<open>n\<close> elements in the Recency
  Index, and any further call leaves such a cache again.
\<close>

theorem size_within_capacity:
  assumes "0 < n"
  shows "\<exists>c. run xs (NewLRUCache n) = Inr c \<and> capacity c = n
           \<and> int (size_of c) \<le> n \<and> int (length (lst c)) \<le> n
           \<and> (\<forall>x. \<exists>c'. exec x c = Inr c' \<and> capacity c' = n
                  \<and> int (size_of c') \<le> n \<and> int (length (lst c')) \<le> n)"
proof -
  have "int (size_of (NewLRUCache n :: 'a LRUCache)) \<le> capacity (NewLRUCache n :: 'a LRUCache)"
    using assms by (simp add: NewLRUCache_size)
  from run_invariant[OF NewLRUCache_consistent this, of xs] obtain c where
    c: "run xs (NewLRUCache n) = Inr c" "consistent c" "capacity c = n" "int (size_of c) \<le> capacity c"
    by (auto simp: NewLRUCache_size)
  have "\<exists>c'. exec x c = Inr c' \<and> capacity c' = n
                  \<and> int (size_of c') \<le> n \<and> int (length (lst c')) \<le> n" for x
    using exec_invariant[OF c(2) c(4), of x] c(3) by (auto simp: consistent_size)
  with c show ?thesis by (auto simp: consistent_size)
qed

theorem size_within_capacity_witness:
  "(0::int) < 2
   \<and> (\<exists>c. run example_ops (NewLRUCache 2) = Inr c \<and> c = example_cache \<and> capacity c = 2
         \<and> int (size_of c) \<le> 2 \<and> int (length (lst c)) \<le> 2
         \<and> (\<exists>c'. exec (OpSet ''c'' (Some 3) 60 3) c = Inr c' \<and> capacity c' = 2
                  \<and> int (size_of c') \<le> 2 \<and> int (length (lst c')) \<le> 2))"
proof -
  have "(0::int) < 2" by simp
  from size_within_capacity[OF this, of example_ops]
  have "capacity example_cache = 2
        \<and> int (size_of example_cache) \<le> 2 \<and> int (length (lst example_cache)) \<le> 2
        \<and> (\<forall>x. \<exists>c'. exec x example_cache = Inr c' \<and> capacity c' = 2
                  \<and> int (size_of c') \<le> 2 \<and> int (length (lst c')) \<le> 2)"
    by (simp add: example_run)
  then have a: "capacity example_cache = 2
        \<and> int (size_of example_cache) \<le> 2 \<and> int (length (lst example_cache)) \<le> 2"
    and b: "\<forall>x. \<exists>c'. exec x example_cache = Inr c' \<and> capacity c' = 2
                  \<and> int (size_of c') \<le> 2 \<and> int (length (lst c')) \<le> 2"
    by blast+
  from b have "\<exists>c'. exec (OpSet ''c'' (Some 3) 60 3) example_cache = Inr c' \<and> capacity c' = 2
                  \<and> int (size_of c') \<le> 2 \<and> int (length (lst c')) \<le> 2" ..
  with a show ?thesis by (simp add: example_run)
qed

section \<open>The Recency Index is in the order of the last touches\<close>

lemma age_Cons: "age (k # log) k' = (if k' = k then 0 else Suc (age log k'))"
  by (simp add: age_def)

lemma recent_filter: "recent log ks \<Longrightarrow> recent log (filter P ks)"
  by (auto simp: recent_def sorted_wrt_filter)

lemma recent_removeAll: "recent log ks \<Longrightarrow> recent log (removeAll k ks)"
  by (simp add: removeAll_filter_not_eq recent_filter)

lemma recent_touch_absent:
  assumes "recent log ks"
  shows "recent (k # log) (removeAll k ks)"
proof -
  from assms have s: "sorted_wrt (\<lambda>a b. age log a < age log b) (removeAll k ks)"
    using recent_removeAll by (simp add: recent_def)
  have "sorted_wrt (\<lambda>a b. age (k # log) a < age (k # log) b) (removeAll k ks)"
    by (rule sorted_wrt_mono_rel[OF _ s]) (simp add: age_Cons)
  with assms show ?thesis by (auto simp: recent_def)
qed

lemma recent_touch:
  assumes "recent log ks"
  shows "recent (k # log) (k # removeAll k ks)"
  using recent_touch_absent[OF assms, of k] by (auto simp: recent_def age_Cons)

lemma recent_last:
  assumes "recent log ks" "distinct ks" "ks \<noteq> []" "k' \<in> set ks" "k' \<noteq> last ks"
  shows "age log k' < age log (last ks)"
proof -
  from assms(3) have ks: "ks = butlast ks @ [last ks]" by simp
  with assms(4,5) have "k' \<in> set (butlast ks)"
    by (metis Un_iff empty_iff empty_set set_ConsD set_append)
  moreover from assms(1) have "sorted_wrt (\<lambda>a b. age log a < age log b) (butlast ks @ [last ks])"
    using ks by (simp add: recent_def)
  ultimately show "age log k' < age log (last ks)" by (simp add: sorted_wrt_append)
qed

lemma recent_last_touched: "recent log ks \<Longrightarrow> ks \<noteq> [] \<Longrightarrow> last ks \<in> set log"
  by (auto simp: recent_def)

lemma consistent_inj_on: "consistent c \<Longrightarrow> inj_on (\<lambda>a. key (heap c ! a)) (set (lst c))"
  using consistent_key_inj by (auto simp: inj_on_def)

lemma keys_of_remove:
  assumes "consistent c" "cache c k = Some e"
  shows "keys_of (c\<lparr>cache := m, lst := removeAll e (lst c)\<rparr>) = removeAll k (keys_of c)"
proof -
  note L = consistent_lookup[OF assms]
  from L have "insert e (set (lst c)) = set (lst c)" by auto
  with consistent_inj_on[OF assms(1)]
  have "inj_on (\<lambda>a. key (heap c ! a)) (insert e (set (lst c)))" by simp
  from map_removeAll_inj_on[OF this] L show ?thesis by (simp add: keys_of_def)
qed

lemma keys_of_move:
  assumes "consistent c" "cache c k = Some e"
  shows "keys_of (c\<lparr>lst := e # removeAll e (lst c)\<rparr>) = k # removeAll k (keys_of c)"
  using keys_of_remove[OF assms, of "cache c"] consistent_lookup[OF assms]
  by (simp add: keys_of_def)

lemma keys_of_update:
  assumes "key ent = key (heap c ! e)"
  shows "keys_of (c\<lparr>lst := l, heap := (heap c)[e := ent]\<rparr>) = keys_of (c\<lparr>lst := l\<rparr>)"
  using assms by (cases "e < length (heap c)") (auto simp: keys_of_def nth_list_update list_update_beyond not_less)

lemma keys_of_inserted:
  assumes "consistent c"
  shows "keys_of (inserted c k v t) = k # keys_of c"
  using assms by (auto simp: keys_of_def inserted_def PushFront_def consistent_def nth_append)


lemma Get_recent:
  assumes "consistent c" "recent log (keys_of c)" "Get c k now = Inr (r, c')"
  shows "recent (k # log) (keys_of c')"
proof (cases "cache c k")
  case None
  with assms(1) have "k \<notin> set (keys_of c)" by (auto simp: consistent_def)
  then have "removeAll k (keys_of c) = keys_of c" by simp
  with recent_touch_absent[OF assms(2), of k] assms(3) None show ?thesis
    by (simp add: Get_absent)
next
  case (Some e)
  show ?thesis
  proof (cases "now < expiration (heap c ! e)")
    case True
    with assms Some recent_touch[OF assms(2), of k] show ?thesis
      by (auto simp: Get_valid keys_of_move)
  next
    case False
    with assms Some recent_touch_absent[OF assms(2), of k] show ?thesis
      by (auto simp: Get_expired keys_of_remove)
  qed
qed

lemma Set_recent:
  assumes "consistent c" "recent log (keys_of c)" "Set c k v ttl now = Inr c'"
  shows "recent (k # log) (keys_of c')"
proof (cases "cache c k")
  case (Some e)
  with assms recent_touch[OF assms(2), of k] show ?thesis
    by (auto simp: Set_existing keys_of_update keys_of_move)
next
  case None
  let ?c1 = "inserted c k v (now + ttl)"
  from None assms(1) have "k \<notin> set (keys_of c)" by (auto simp: consistent_def)
  then have "removeAll k (keys_of c) = keys_of c" by simp
  with recent_touch[OF assms(2), of k] assms(1)
  have r1: "recent (k # log) (keys_of ?c1)" by (simp add: keys_of_inserted)
  show ?thesis
  proof (cases "int (size_of c) < capacity c")
    case True
    with None assms r1 show ?thesis
      by (simp add: Set_new_no_evict consistent_finite)
  next
    case False
    have c1: "consistent ?c1" using assms(1) None by (rule inserted_consistent)
    let ?b = "last (lst ?c1)"
    have "?b \<in> set (lst ?c1)" by (simp add: inserted_def PushFront_def)
    with c1 have "cache ?c1 (key (heap ?c1 ! ?b)) = Some ?b" by (simp add: consistent_def)
    from keys_of_remove[OF c1 this] recent_removeAll[OF r1] False None assms show ?thesis
      by (auto simp: Set_new_evict)
  qed
qed

lemma sweep_recent:
  "consistent c \<Longrightarrow> recent log (keys_of c) \<Longrightarrow> sweep visits c acc = Inr (es, c') \<Longrightarrow>
   recent log (keys_of c')"
proof (induction visits arbitrary: c acc)
  case Nil
  then show ?case by simp
next
  case (Cons kt visits)
  obtain k t where kt: "kt = (k, t)" by (cases kt)
  show ?case
  proof (cases "cache c k")
    case None
    with Cons kt show ?thesis by simp
  next
    case (Some e)
    note L = consistent_lookup[OF Cons.prems(1) Some]
    have E: "entry_at c e = Some (heap c ! e)" using Cons.prems(1) Some by (rule consistent_entry_at)
    show ?thesis
    proof (cases "t < expiration (heap c ! e)")
      case True
      with Cons kt Some E show ?thesis by simp
    next
      case False
      let ?c1 = "c\<lparr>cache := (cache c)(k := None), lst := removeAll e (lst c)\<rparr>"
      have c1: "consistent ?c1" using Cons.prems(1) Some by (rule consistent_remove)
      have r1: "recent log (keys_of ?c1)"
        using recent_removeAll[OF Cons.prems(2), of k] Cons.prems(1) Some
        by (simp add: keys_of_remove)
      from Cons.prems(3) False kt Some E L
      have "sweep visits ?c1 acc = Inr (es, c')" by (simp add: Remove_def)
      from Cons.IH[OF c1 r1 this] show ?thesis .
    qed
  qed
qed

lemma exec_recent:
  assumes "consistent c" "recent log (keys_of c)" "exec x c = Inr c'"
  shows "recent (rev (touched x) @ log) (keys_of c')"
proof (cases x)
  case (OpGet k now)
  with assms(3) obtain r where "Get c k now = Inr (r, c')"
    by (auto split: sum.splits)
  from Get_recent[OF assms(1,2) this] OpGet show ?thesis by simp
next
  case (OpSet k v ttl now)
  with assms Set_recent[OF assms(1,2)] show ?thesis by simp
next
  case OpClear
  with assms show ?thesis by (auto simp: ClearCache_def keys_of_def recent_def)
next
  case (OpSnapshot visits)
  with assms(3) obtain es where "sweep visits c [] = Inr (es, c')"
    by (auto simp: GetCacheState_def split: sum.splits)
  from sweep_recent[OF assms(1,2) this] OpSnapshot show ?thesis by simp
qed

lemma touch_log_Cons: "touch_log (x # xs) = touch_log xs @ rev (touched x)"
  by (simp add: touch_log_def)

lemma run_recent:
  "consistent c \<Longrightarrow> int (size_of c) \<le> capacity c \<Longrightarrow> recent log (keys_of c) \<Longrightarrow>
   run xs c = Inr c' \<Longrightarrow> recent (touch_log xs @ log) (keys_of c')"
proof (induction xs arbitrary: c log)
  case Nil
  then show ?case by (simp add: touch_log_def)
next
  case (Cons x xs)
  from exec_invariant[OF Cons.prems(1,2), of x] obtain c1 where
    c1: "exec x c = Inr c1" "consistent c1" "int (size_of c1) \<le> capacity c1"
    by blast
  from exec_recent[OF Cons.prems(1,3) c1(1)]
  have r1: "recent (rev (touched x) @ log) (keys_of c1)" .
  from Cons.prems(4) c1(1) have "run xs c1 = Inr c'" by simp
  from Cons.IH[OF c1(2,3) r1 this] show ?case by (simp add: touch_log_Cons)
qed


lemma last_notin_butlast: "distinct xs \<Longrightarrow> xs \<noteq> [] \<Longrightarrow> last xs \<notin> set (butlast xs)"
proof -
  assume d: "distinct xs" and n: "xs \<noteq> []"
  from n have "xs = butlast xs @ [last xs]" by simp
  with d have "distinct (butlast xs @ [last xs])" by simp
  then show ?thesis by (simp only: distinct_append) simp
qed

lemma removeAll_last: "distinct xs \<Longrightarrow> xs \<noteq> [] \<Longrightarrow> removeAll (last xs) xs = butlast xs"
proof -
  assume d: "distinct xs" and n: "xs \<noteq> []"
  have "removeAll (last xs) (butlast xs @ [last xs])
        = removeAll (last xs) (butlast xs) @ removeAll (last xs) [last xs]"
    by (rule removeAll_append)
  also have "\<dots> = butlast xs" using last_notin_butlast[OF d n] by simp
  finally show ?thesis using n by simp
qed

lemma example_cache_full:
  "0 < capacity example_cache" "int (size_of example_cache) = capacity example_cache"
  "cache example_cache ''c'' = None" "(1::nat) = last (lst example_cache)"
  "''b'' = key (heap example_cache ! 1)"
  by (simp_all add: example_cache_def size_of_def)

section \<open>Set of a new key into a full cache\<close>

text \<open>
  C2. In a consistent cache that holds exactly \<open>capacity\<close> keys, for a positive
  capacity, \<^verbatim>\<open>Set\<close> of a key \<open>k\<close> that is not present allocates the new entry, puts its
  element at the head of the Recency Index and its key into the Lookup Table, and evicts
  the element \<open>b\<close> at the tail with its key \<open>victim\<close>: the list after the call is the new
  element followed by the old list without its last element, the map after the call is
  the old map with \<open>k\<close> added and \<open>victim\<close> deleted, and the size is unchanged, so
  exactly one entry has gone and no other. For every sequence of calls that leads from
  the newly constructed cache to this one, \<open>victim\<close> has been touched by a \<^verbatim>\<open>Get\<close> or a
  \<^verbatim>\<open>Set\<close>, and each other key of the cache has been touched more recently.
\<close>

theorem Set_evicts_least_recently_used:
  assumes "consistent c" and "0 < capacity c" and "int (size_of c) = capacity c"
    and "cache c k = None"
    and "b = last (lst c)" and "victim = key (heap c ! b)"
  shows "\<exists>c'. Set c k v ttl now = Inr c'
           \<and> heap c' = heap c @ [\<lparr>key = k, value = v, expiration = now + ttl\<rparr>]
           \<and> lst c' = length (heap c) # butlast (lst c)
           \<and> cache c' = (cache c)(k \<mapsto> length (heap c), victim := None)
           \<and> b \<in> set (lst c) \<and> cache c victim = Some b \<and> victim \<noteq> k
           \<and> b \<notin> set (lst c') \<and> cache c' victim = None
           \<and> size_of c' = size_of c \<and> capacity c' = capacity c
           \<and> (\<forall>xs. run xs (NewLRUCache (capacity c)) = Inr c \<longrightarrow>
                 victim \<in> set (touch_log xs)
                 \<and> (\<forall>k' \<in> dom (cache c). k' \<noteq> victim \<longrightarrow>
                       age (touch_log xs) k' < age (touch_log xs) victim))"
proof -
  let ?c1 = "inserted c k v (now + ttl)"
  let ?a = "length (heap c)"
  from assms(1,2,3) have ne: "lst c \<noteq> []" by (auto simp: consistent_size)
  with assms(5) have b: "b \<in> set (lst c)" by simp
  with assms(1) have bl: "b < length (heap c)" and cb: "cache c victim = Some b"
    by (auto simp: consistent_def assms(6))
  from cb assms(4) have vk: "victim \<noteq> k" by auto
  have d: "distinct (lst c)" using assms(1) by (simp add: consistent_def)
  have last1: "last (lst ?c1) = b" using ne assms(5) by (simp add: inserted_def PushFront_def)
  have key1: "key (heap ?c1 ! b) = victim" using bl assms(6) by (simp add: inserted_def nth_append)
  have ab: "?a \<noteq> b" using bl by simp
  have rm: "removeAll b (lst ?c1) = ?a # butlast (lst c)"
    using ab removeAll_last[OF d ne] assms(5) by (simp add: inserted_def PushFront_def)
  have S: "Set c k v ttl now =
      Inr (?c1\<lparr>cache := (cache ?c1)(victim := None), lst := ?a # butlast (lst c)\<rparr>)"
    using Set_new_evict[OF assms(1) assms(4), of v ttl now] assms(3) last1 key1 rm by simp
  have c1: "consistent ?c1" using assms(1,4) by (rule inserted_consistent)
  have cb1: "cache ?c1 victim = Some b" using cb vk by (simp add: inserted_def)
  from size_of_delete_present[OF consistent_finite[OF c1] cb1, of "?a # butlast (lst c)"]
    size_of_inserted[OF consistent_finite[OF assms(1)] assms(4), of v "now + ttl"]
  have sz: "size_of (?c1\<lparr>cache := (cache ?c1)(victim := None), lst := ?a # butlast (lst c)\<rparr>)
            = size_of c" by simp
  have nb: "b \<notin> set (butlast (lst c))"
    using last_notin_butlast[OF d ne] assms(5) by simp
  have hist: "victim \<in> set (touch_log xs)
                 \<and> (\<forall>k' \<in> dom (cache c). k' \<noteq> victim \<longrightarrow>
                       age (touch_log xs) k' < age (touch_log xs) victim)"
    if run: "run xs (NewLRUCache (capacity c)) = Inr c" for xs
  proof -
    have "recent [] (keys_of (NewLRUCache (capacity c) :: 'a LRUCache))"
      by (simp add: recent_def keys_of_def NewLRUCache_def)
    moreover have "int (size_of (NewLRUCache (capacity c) :: 'a LRUCache))
                   \<le> capacity (NewLRUCache (capacity c) :: 'a LRUCache)"
      using assms(2) by (simp add: NewLRUCache_size)
    ultimately have r: "recent (touch_log xs) (keys_of c)"
      using run_recent[OF NewLRUCache_consistent _ _ run, of "[]"] by simp
    have dk: "distinct (keys_of c)" using assms(1) by (simp add: consistent_iff)
    have nk: "keys_of c \<noteq> []" using ne by (simp add: keys_of_def)
    have lk: "last (keys_of c) = victim" using ne assms(5,6) by (simp add: keys_of_def last_map)
    have dom: "dom (cache c) = set (keys_of c)" using assms(1) by (simp add: consistent_def)
    from recent_last[OF r dk nk] recent_last_touched[OF r nk] lk dom show ?thesis by auto
  qed
  from S b cb vk sz ab nb hist show ?thesis
    by (simp add: inserted_def fun_upd_twist)
qed


theorem Set_evicts_least_recently_used_witness:
  "consistent example_cache \<and> 0 < capacity example_cache
   \<and> int (size_of example_cache) = capacity example_cache
   \<and> cache example_cache ''c'' = None
   \<and> (1::nat) = last (lst example_cache) \<and> ''b'' = key (heap example_cache ! 1)
   \<and> (\<exists>c'. Set example_cache ''c'' (Some 3) 60 3 = Inr c'
          \<and> lst c' = [2, 0]
          \<and> cache c' = [''a'' \<mapsto> 0, ''c'' \<mapsto> 2]
          \<and> size_of c' = 2)
   \<and> run example_ops (NewLRUCache 2) = Inr example_cache
   \<and> ''b'' \<in> set (touch_log example_ops)
   \<and> ''a'' \<in> dom (cache example_cache)
   \<and> age (touch_log example_ops) ''a'' < age (touch_log example_ops) ''b''"
proof -
  note T = Set_evicts_least_recently_used[OF example_cache_consistent example_cache_full,
      of "Some 3" 60 3]
  from T obtain c' where c':
    "Set example_cache ''c'' (Some 3) 60 3 = Inr c'"
    "lst c' = length (heap example_cache) # butlast (lst example_cache)"
    "cache c' = (cache example_cache)(''c'' \<mapsto> length (heap example_cache), ''b'' := None)"
    "size_of c' = size_of example_cache"
    by blast
  have 1: "lst c' = [2, 0]" using c'(2) by (simp add: example_cache_def)
  have 2: "cache c' = [''a'' \<mapsto> 0, ''c'' \<mapsto> 2]"
    using c'(3) by (auto simp: example_cache_def)
  have 3: "size_of c' = 2" using c'(4) example_cache_full(2) by (simp add: example_cache_def)
  have r: "run example_ops (NewLRUCache (capacity example_cache)) = Inr example_cache"
    by (simp add: example_run example_cache_def)
  have a: "''a'' \<in> dom (cache example_cache)" by (simp add: example_cache_def)
  from T have "\<forall>xs. run xs (NewLRUCache (capacity example_cache)) = Inr example_cache \<longrightarrow>
      ''b'' \<in> set (touch_log xs)
      \<and> (\<forall>k' \<in> dom (cache example_cache). k' \<noteq> ''b'' \<longrightarrow>
            age (touch_log xs) k' < age (touch_log xs) ''b'')"
    by blast
  with r have "''b'' \<in> set (touch_log example_ops)
      \<and> (\<forall>k' \<in> dom (cache example_cache). k' \<noteq> ''b'' \<longrightarrow>
            age (touch_log example_ops) k' < age (touch_log example_ops) ''b'')"
    by blast
  with a have h: "''b'' \<in> set (touch_log example_ops)
     \<and> age (touch_log example_ops) ''a'' < age (touch_log example_ops) ''b''"
    by simp
  from c'(1) 1 2 3 h a example_run example_cache_consistent example_cache_full
  show ?thesis by blast
qed

section \<open>Entries stored by Set, and expired entries\<close>

lemma consistent_lookup_entry:
  "consistent c \<Longrightarrow> cache c k = Some e \<Longrightarrow> lookup_entry c k = Some (heap c ! e)"
  by (simp add: lookup_entry_def consistent_entry_at)

lemma lookup_entry_absent: "cache c k = None \<Longrightarrow> lookup_entry c k = None"
  by (simp add: lookup_entry_def)

lemma Set_entry:
  assumes "consistent c"
  shows "\<exists>c1. Set c k v ttl now = Inr c1 \<and> consistent c1
           \<and> (\<forall>e. cache c1 k = Some e \<longrightarrow>
                 key (heap c1 ! e) = k \<and> value (heap c1 ! e) = v
                 \<and> expiration (heap c1 ! e) = now + ttl)
           \<and> (0 < capacity c \<longrightarrow> cache c1 k \<noteq> None)"
proof (cases "cache c k")
  case (Some e)
  note L = consistent_lookup[OF assms Some]
  from Set_existing_consistent[OF assms Some, of v ttl now] L Some show ?thesis
    by (auto simp: Set_existing[OF assms Some])
next
  case None
  let ?c1 = "inserted c k v (now + ttl)"
  let ?a = "length (heap c)"
  have c1: "consistent ?c1" using assms None by (rule inserted_consistent)
  have k1: "cache ?c1 k = Some ?a" by (simp add: inserted_def)
  have h1: "heap ?c1 ! ?a = \<lparr>key = k, value = v, expiration = now + ttl\<rparr>"
    by (simp add: inserted_def)
  show ?thesis
  proof (cases "int (size_of c) < capacity c")
    case True
    with None assms c1 k1 h1 show ?thesis
      by (simp add: Set_new_no_evict consistent_finite)
  next
    case False
    let ?b = "last (lst ?c1)"
    let ?c2 = "?c1\<lparr>cache := (cache ?c1)(key (heap ?c1 ! ?b) := None), lst := removeAll ?b (lst ?c1)\<rparr>"
    have S: "Set c k v ttl now = Inr ?c2" using False None assms by (simp add: Set_new_evict)
    have bin: "?b \<in> set (lst ?c1)" by (simp add: inserted_def PushFront_def)
    with c1 have cb: "cache ?c1 (key (heap ?c1 ! ?b)) = Some ?b" by (simp add: consistent_def)
    have c2: "consistent ?c2" using consistent_remove[OF c1 cb] .
    have e: "\<forall>e. cache ?c2 k = Some e \<longrightarrow>
                 key (heap ?c2 ! e) = k \<and> value (heap ?c2 ! e) = v
                 \<and> expiration (heap ?c2 ! e) = now + ttl"
      using k1 h1 by (auto split: if_splits)
    have "cache ?c2 k \<noteq> None" if pos: "0 < capacity c"
    proof -
      define b where "b = last (lst c)"
      from pos False assms have ne: "lst c \<noteq> []" by (auto simp: consistent_size)
      then have lb: "?b = b" by (simp add: inserted_def PushFront_def b_def)
      from ne have "b \<in> set (lst c)" by (simp add: b_def)
      with assms have bl: "b < length (heap c)" "cache c (key (heap c ! b)) = Some b"
        by (auto simp: consistent_def)
      from bl(1) have "heap ?c1 ! b = heap c ! b" by (simp add: inserted_def nth_append)
      moreover from bl(2) None have "key (heap c ! b) \<noteq> k" by auto
      ultimately have "key (heap ?c1 ! ?b) \<noteq> k" by (simp only: lb) simp
      with k1 show ?thesis by simp
    qed
    then have "0 < capacity c \<longrightarrow> cache ?c2 k \<noteq> None" by blast
    with S c2 e show ?thesis by blast
  qed
qed

lemma Get_expired_by:
  assumes "consistent c" "expired_by c k t" "t \<le> now"
  shows "\<exists>c'. Get c k now = Inr (None, c') \<and> cache c' k = None"
proof (cases "cache c k")
  case None
  then show ?thesis by (simp add: Get_absent)
next
  case (Some e)
  with assms have "expiration (heap c ! e) \<le> now"
    by (simp add: expired_by_def consistent_lookup_entry)
  with assms Some show ?thesis by (simp add: Get_expired)
qed


lemma operations_step:
  assumes "consistent c"
  shows "\<exists>c'. exec x c = Inr c' \<and> consistent c'"
proof (cases x)
  case (OpGet k now)
  with Get_consistent[OF assms, of k now] show ?thesis by auto
next
  case (OpSet k v ttl now)
  with Set_consistent[OF assms, of k v ttl now] show ?thesis by auto
next
  case OpClear
  then show ?thesis by (simp add: ClearCache_consistent)
next
  case (OpSnapshot visits)
  with sweep_consistent[OF assms, of visits "[]"] show ?thesis by (auto simp: GetCacheState_def)
qed

lemma expired_by_shrink:
  assumes "expired_by c k t" "heap c' = heap c" "cache c' k = cache c k \<or> cache c' k = None"
  shows "expired_by c' k t"
  using assms by (auto simp: expired_by_def lookup_entry_def entry_at_def split: option.splits)

lemma Get_keeps_expired_by:
  assumes "consistent c" "expired_by c k t" "Get c k' now = Inr (r, c')"
  shows "expired_by c' k t"
proof (cases "cache c k'")
  case None
  with assms show ?thesis by (simp add: Get_absent)
next
  case (Some e)
  show ?thesis
  proof (cases "now < expiration (heap c ! e)")
    case True
    with assms Some have eq: "c' = c\<lparr>lst := e # removeAll e (lst c)\<rparr>" by (simp add: Get_valid)
    have "expired_by (c\<lparr>lst := e # removeAll e (lst c)\<rparr>) k t"
      by (rule expired_by_shrink[OF assms(2)]) simp_all
    then show ?thesis by (simp only: eq)
  next
    case False
    with assms Some have eq: "c' = c\<lparr>cache := (cache c)(k' := None), lst := removeAll e (lst c)\<rparr>"
      by (simp add: Get_expired)
    have "expired_by (c\<lparr>cache := (cache c)(k' := None), lst := removeAll e (lst c)\<rparr>) k t"
      by (rule expired_by_shrink[OF assms(2)]) simp_all
    then show ?thesis by (simp only: eq)
  qed
qed

lemma sweep_keeps_expired_by:
  "consistent c \<Longrightarrow> expired_by c k t \<Longrightarrow> sweep visits c acc = Inr (es, c') \<Longrightarrow>
   expired_by c' k t"
proof (induction visits arbitrary: c acc)
  case Nil
  then show ?case by simp
next
  case (Cons kt visits)
  obtain k' t' where kt: "kt = (k', t')" by (cases kt)
  show ?case
  proof (cases "cache c k'")
    case None
    with Cons kt show ?thesis by simp
  next
    case (Some e)
    note L = consistent_lookup[OF Cons.prems(1) Some]
    have E: "entry_at c e = Some (heap c ! e)" using Cons.prems(1) Some by (rule consistent_entry_at)
    show ?thesis
    proof (cases "t' < expiration (heap c ! e)")
      case True
      with Cons kt Some E show ?thesis by simp
    next
      case False
      let ?c1 = "c\<lparr>cache := (cache c)(k' := None), lst := removeAll e (lst c)\<rparr>"
      have c1: "consistent ?c1" using Cons.prems(1) Some by (rule consistent_remove)
      have e1: "expired_by ?c1 k t"
        by (rule expired_by_shrink[OF Cons.prems(2)]) simp_all
      from Cons.prems(3) False kt Some E L
      have "sweep visits ?c1 acc = Inr (es, c')" by (simp add: Remove_def)
      from Cons.IH[OF c1 e1 this] show ?thesis .
    qed
  qed
qed

lemma Set_keeps_expired_by:
  assumes "consistent c" "expired_by c k t" "Set c k' v ttl now = Inr c'" "k' \<noteq> k"
  shows "expired_by c' k t"
proof (cases "cache c k'")
  case (Some e')
  from assms(3) Set_existing[OF assms(1) Some, of v ttl now]
  have eq: "c' = c\<lparr>lst := e' # removeAll e' (lst c),
            heap := (heap c)[e' := (heap c ! e')\<lparr>value := v, expiration := now + ttl\<rparr>]\<rparr>"
    by simp
  have "lookup_entry c' k = lookup_entry c k"
  proof (cases "cache c k")
    case None
    then show ?thesis by (simp add: eq lookup_entry_def)
  next
    case (Some e)
    note L = consistent_lookup[OF assms(1) Some] and L' = consistent_lookup[OF assms(1) \<open>cache c k' = Some e'\<close>]
    from L L' assms(4) have "e \<noteq> e'" by auto
    with Some L show ?thesis
      by (simp add: eq lookup_entry_def entry_at_def)
  qed
  with assms(2) show ?thesis by (simp add: expired_by_def)
next
  case None
  let ?c1 = "inserted c k' v (now + ttl)"
  have "lookup_entry ?c1 k = lookup_entry c k"
  proof (cases "cache c k")
    case None
    with assms(4) show ?thesis by (simp add: lookup_entry_def inserted_def)
  next
    case (Some e)
    note L = consistent_lookup[OF assms(1) Some]
    with assms(4) Some show ?thesis
      by (simp add: lookup_entry_def inserted_def entry_at_def nth_append)
  qed
  with assms(2) have e1: "expired_by ?c1 k t" by (simp add: expired_by_def)
  show ?thesis
  proof (cases "int (size_of c) < capacity c")
    case True
    with None assms e1 show ?thesis
      by (simp add: Set_new_no_evict consistent_finite)
  next
    case False
    with None assms have eq: "c' = ?c1\<lparr>cache := (cache ?c1)(key (heap ?c1 ! last (lst ?c1)) := None),
             lst := removeAll (last (lst ?c1)) (lst ?c1)\<rparr>"
      by (simp add: Set_new_evict)
    have "expired_by (?c1\<lparr>cache := (cache ?c1)(key (heap ?c1 ! last (lst ?c1)) := None),
             lst := removeAll (last (lst ?c1)) (lst ?c1)\<rparr>) k t"
      by (rule expired_by_shrink[OF e1]) simp_all
    then show ?thesis by (simp only: eq)
  qed
qed

lemma exec_keeps_expired_by:
  assumes "consistent c" "expired_by c k t" "exec x c = Inr c'" "\<not> sets_key k x"
  shows "expired_by c' k t"
proof (cases x)
  case (OpGet k' now)
  with assms(3) obtain r where "Get c k' now = Inr (r, c')" by (auto split: sum.splits)
  from Get_keeps_expired_by[OF assms(1,2) this] show ?thesis .
next
  case (OpSet k' v ttl now)
  with assms Set_keeps_expired_by[OF assms(1,2), of k' v ttl now c'] show ?thesis by simp
next
  case OpClear
  with assms(3) have "c' = ClearCache c" by simp
  then show ?thesis by (simp add: expired_by_def lookup_entry_def ClearCache_def)
next
  case (OpSnapshot visits)
  with assms(3) obtain es where "sweep visits c [] = Inr (es, c')"
    by (auto simp: GetCacheState_def split: sum.splits)
  from sweep_keeps_expired_by[OF assms(1,2) this] show ?thesis .
qed

lemma run_keeps_expired_by:
  "consistent c \<Longrightarrow> expired_by c k t \<Longrightarrow> \<forall>x \<in> set xs. \<not> sets_key k x \<Longrightarrow>
   \<exists>c'. run xs c = Inr c' \<and> consistent c' \<and> expired_by c' k t"
proof (induction xs arbitrary: c)
  case Nil
  then show ?case by simp
next
  case (Cons x xs)
  from Cons.prems(1) obtain c1 where c1: "exec x c = Inr c1" "consistent c1"
    using operations_step by blast
  from exec_keeps_expired_by[OF Cons.prems(1,2) c1(1)] Cons.prems(3)
  have "expired_by c1 k t" by simp
  from Cons.IH[OF c1(2) this] Cons.prems(3) c1(1) show ?case by simp
qed

section \<open>Set with a zero time-to-live\<close>

text \<open>
  C6. In a consistent cache, \<^verbatim>\<open>Set(k, v, 0)\<close> at instant \<open>now\<close> returns; the entry \<open>k\<close>
  leads to afterwards has expiration \<open>now\<close> (and there is such an entry when the
  capacity is positive); \<^verbatim>\<open>Get(k)\<close> at any instant \<open>now'\<close> at or after \<open>now\<close> returns nil
  and leaves \<open>k\<close> absent, directly after the \<^verbatim>\<open>Set\<close> and also after any sequence of
  calls in between that does not \<^verbatim>\<open>Set\<close> the key \<open>k\<close> again.
\<close>

theorem Set_zero_ttl_never_retrievable:
  assumes "consistent c" and "now \<le> now'"
  shows "\<exists>c1. Set c k v 0 now = Inr c1
           \<and> (\<forall>e. cache c1 k = Some e \<longrightarrow> expiration (heap c1 ! e) = now)
           \<and> (0 < capacity c \<longrightarrow> cache c1 k \<noteq> None)
           \<and> (\<exists>c2. Get c1 k now' = Inr (None, c2) \<and> cache c2 k = None)
           \<and> (\<forall>xs. (\<forall>x \<in> set xs. \<not> sets_key k x) \<longrightarrow>
                 (\<exists>c3 c4. run xs c1 = Inr c3 \<and> Get c3 k now' = Inr (None, c4)
                    \<and> cache c4 k = None))"
proof -
  from Set_entry[OF assms(1), of k v 0 now] obtain c1 where
    S: "Set c k v 0 now = Inr c1" and c1: "consistent c1"
    and e: "\<forall>e. cache c1 k = Some e \<longrightarrow> expiration (heap c1 ! e) = now"
    and p: "0 < capacity c \<longrightarrow> cache c1 k \<noteq> None"
    by auto
  have x: "expired_by c1 k now"
  proof (cases "cache c1 k")
    case None
    then show ?thesis by (simp add: expired_by_def lookup_entry_absent)
  next
    case (Some a)
    with e c1 show ?thesis by (simp add: expired_by_def consistent_lookup_entry)
  qed
  have g: "\<exists>c2. Get c1 k now' = Inr (None, c2) \<and> cache c2 k = None"
    using Get_expired_by[OF c1 x assms(2)] .
  have r: "\<exists>c3 c4. run xs c1 = Inr c3 \<and> Get c3 k now' = Inr (None, c4) \<and> cache c4 k = None"
    if xs: "\<forall>x \<in> set xs. \<not> sets_key k x" for xs
  proof -
    from run_keeps_expired_by[OF c1 x xs] obtain c3 where
      c3: "run xs c1 = Inr c3" "consistent c3" "expired_by c3 k now" by blast
    from Get_expired_by[OF c3(2,3) assms(2)] c3(1) show ?thesis by blast
  qed
  from S e p g r show ?thesis by blast
qed

theorem Set_zero_ttl_never_retrievable_witness:
  "consistent example_cache \<and> (10::int) \<le> 12
   \<and> \<not> sets_key ''x'' (OpGet ''a'' 11 :: int op)
   \<and> (\<exists>c1. Set example_cache ''x'' (Some 9) 0 10 = Inr c1
         \<and> (\<exists>e. cache c1 ''x'' = Some e \<and> expiration (heap c1 ! e) = 10)
         \<and> (\<exists>c2. Get c1 ''x'' 12 = Inr (None, c2) \<and> cache c2 ''x'' = None)
         \<and> (\<exists>c3 c4. run [OpGet ''a'' 11] c1 = Inr c3 \<and> Get c3 ''x'' 12 = Inr (None, c4)))"
proof -
  have le: "(10::int) \<le> 12" by simp
  from Set_zero_ttl_never_retrievable[OF example_cache_consistent le, of "''x''" "Some 9"]
  obtain c1 where
    S: "Set example_cache ''x'' (Some 9) 0 10 = Inr c1"
    and e: "\<forall>e. cache c1 ''x'' = Some e \<longrightarrow> expiration (heap c1 ! e) = 10"
    and p: "0 < capacity example_cache \<longrightarrow> cache c1 ''x'' \<noteq> None"
    and g: "\<exists>c2. Get c1 ''x'' 12 = Inr (None, c2) \<and> cache c2 ''x'' = None"
    and r: "\<forall>xs. (\<forall>x \<in> set xs. \<not> sets_key ''x'' x) \<longrightarrow>
                 (\<exists>c3 c4. run xs c1 = Inr c3 \<and> Get c3 ''x'' 12 = Inr (None, c4)
                    \<and> cache c4 ''x'' = None)"
    by blast
  have "0 < capacity example_cache" by (simp add: example_cache_def)
  with p e have 1: "\<exists>e. cache c1 ''x'' = Some e \<and> expiration (heap c1 ! e) = 10" by auto
  have n: "\<forall>x \<in> set [OpGet ''a'' 11 :: int op]. \<not> sets_key ''x'' x" by simp
  with r have 2: "\<exists>c3 c4. run [OpGet ''a'' 11] c1 = Inr c3 \<and> Get c3 ''x'' 12 = Inr (None, c4)"
    by blast
  from S 1 g 2 le example_cache_consistent show ?thesis by auto
qed

section \<open>A stored nil value\<close>

text \<open>
  C9. \<^verbatim>\<open>Get\<close> has no found flag, its result for a missing key is nil. In a consistent
  cache of positive capacity, after \<^verbatim>\<open>Set(k, nil, ttl)\<close> with \<open>ttl > 0\<close> at instant \<open>now\<close> the
  key leads to an entry with value nil and expiration \<open>now + ttl\<close>; \<^verbatim>\<open>Get(k)\<close> at \<open>now\<close>, and
  at every instant before the expiration, takes the path of a valid entry (the element is
  moved to the head, the entry stays) and returns nil, the value it also returns for a
  key that is not in the Lookup Table; the handler of \<^verbatim>\<open>GET /cache/:key\<close> answers both
  with status 404.
\<close>

theorem Get_nil_value_is_not_found:
  assumes "consistent c" and "0 < ttl" and "0 < capacity c"
  shows "\<exists>c1 e. Set c k None ttl now = Inr c1
           \<and> cache c1 k = Some e \<and> key (heap c1 ! e) = k
           \<and> value (heap c1 ! e) = None \<and> expiration (heap c1 ! e) = now + ttl
           \<and> Get c1 k now = Inr (None, c1\<lparr>lst := e # removeAll e (lst c1)\<rparr>)
           \<and> (\<forall>now'. now' < now + ttl \<longrightarrow>
                 Get c1 k now' = Inr (None, c1\<lparr>lst := e # removeAll e (lst c1)\<rparr>)
                 \<and> handle_get c1 k now' = Inr (StatusNotFound, c1\<lparr>lst := e # removeAll e (lst c1)\<rparr>))
           \<and> (\<forall>k' now'. cache c1 k' = None \<longrightarrow>
                 Get c1 k' now' = Inr (None, c1)
                 \<and> handle_get c1 k' now' = Inr (StatusNotFound, c1))"
proof -
  from Set_entry[OF assms(1), of k None ttl now] assms(3) obtain c1 e where
    S: "Set c k None ttl now = Inr c1" and c1: "consistent c1"
    and k: "cache c1 k = Some e"
    and f: "key (heap c1 ! e) = k" "value (heap c1 ! e) = None" "expiration (heap c1 ! e) = now + ttl"
    by auto
  have v: "Get c1 k now' = Inr (None, c1\<lparr>lst := e # removeAll e (lst c1)\<rparr>)
           \<and> handle_get c1 k now' = Inr (StatusNotFound, c1\<lparr>lst := e # removeAll e (lst c1)\<rparr>)"
    if "now' < now + ttl" for now'
    using Get_valid[OF c1 k, of now'] that f by (simp add: handle_get_def)
  from assms(2) have "now < now + ttl" by simp
  from v[OF this] have g: "Get c1 k now = Inr (None, c1\<lparr>lst := e # removeAll e (lst c1)\<rparr>)" by simp
  have a: "Get c1 k' now' = Inr (None, c1) \<and> handle_get c1 k' now' = Inr (StatusNotFound, c1)"
    if "cache c1 k' = None" for k' now'
    using that by (simp add: handle_get_def Get_absent)
  from S k f g v a show ?thesis by blast
qed

theorem Get_nil_value_is_not_found_witness:
  "consistent example_cache \<and> (0::int) < 60 \<and> 0 < capacity example_cache
   \<and> (\<exists>c1 e. Set example_cache ''n'' None 60 10 = Inr c1
         \<and> cache c1 ''n'' = Some e \<and> value (heap c1 ! e) = None
         \<and> expiration (heap c1 ! e) = 70
         \<and> (\<exists>c2. Get c1 ''n'' 10 = Inr (None, c2) \<and> handle_get c1 ''n'' 10 = Inr (StatusNotFound, c2))
         \<and> (11::int) < 10 + 60
         \<and> (\<exists>c2. Get c1 ''n'' 11 = Inr (None, c2) \<and> handle_get c1 ''n'' 11 = Inr (StatusNotFound, c2)))"
proof -
  have t: "(0::int) < 60" and p: "0 < capacity example_cache"
    by (simp_all add: example_cache_def)
  from Get_nil_value_is_not_found[OF example_cache_consistent t p, of "''n''" 10]
  obtain c1 e where
    S: "Set example_cache ''n'' None 60 10 = Inr c1"
    and k: "cache c1 ''n'' = Some e" "value (heap c1 ! e) = None" "expiration (heap c1 ! e) = 10 + 60"
    and v: "\<forall>now'. now' < 10 + 60 \<longrightarrow>
                 Get c1 ''n'' now' = Inr (None, c1\<lparr>lst := e # removeAll e (lst c1)\<rparr>)
                 \<and> handle_get c1 ''n'' now' = Inr (StatusNotFound, c1\<lparr>lst := e # removeAll e (lst c1)\<rparr>)"
    by blast
  have l: "(10::int) < 10 + 60" "(11::int) < 10 + 60" by simp_all
  from v l(1) have 1: "\<exists>c2. Get c1 ''n'' 10 = Inr (None, c2) \<and> handle_get c1 ''n'' 10 = Inr (StatusNotFound, c2)"
    by blast
  from v l(2) have 2: "\<exists>c2. Get c1 ''n'' 11 = Inr (None, c2) \<and> handle_get c1 ''n'' 11 = Inr (StatusNotFound, c2)"
    by blast
  from k(3) have 3: "expiration (heap c1 ! e) = 70" by simp
  from S k(1,2) 3 1 2 l t p example_cache_consistent show ?thesis by blast
qed

end
